theory Spec2Isabelle
  imports Main
begin

section \<open>Python values, exceptions and call outcomes\<close>

text \<open>
  The module \<^verbatim>\<open>libvirtbynamedriver.py\<close> wraps every accessor of the libvirt driver with
  the decorator \<^verbatim>\<open>wrapped_identity\<close> and overrides the \<^verbatim>\<open>systems\<close> property.  The
  values that travel through the decorator are opaque to it, apart from the string it
  stores under the key \<^verbatim>\<open>identity\<close>.
\<close>

datatype pyval = PNone | PBool bool | PInt int | PStr string | PObj nat

text \<open>
  Modelled from the spec: the exception class \<^verbatim>\<open>AliasAccessError\<close> is imported from
  \<^verbatim>\<open>sushy_tools/error.py\<close>, which is not part of the sources at hand.  The spec (section 3)
  says that the signal carries exactly one payload, the resolved canonical identifier, a
  string; \<^verbatim>\<open>str(err)\<close> in the wrapper reads that payload.  The constructor stands for the
  class and its subclasses, which is what \<^verbatim>\<open>except AliasAccessError\<close> catches.  Every other
  exception class is \<open>ValueError\<close>, \<open>TypeError\<close> or \<open>OtherError\<close> (class name and message).
\<close>

datatype exn =
    AliasAccessError string
  | ValueError string
  | TypeError string
  | OtherError string string

datatype 'a outcome = Return 'a | Raise exn

fun is_alias :: "'a outcome \<Rightarrow> bool" where
  "is_alias (Raise (AliasAccessError c)) = True"
| "is_alias r = False"

fun raises :: "'a outcome \<Rightarrow> bool" where
  "raises (Raise e) = True"
| "raises (Return v) = False"

section \<open>Dictionaries\<close>

text \<open>
  A Python \<^verbatim>\<open>dict\<close> keeps its keys in insertion order; storing under a key that is present
  replaces the value in place, storing under a new key appends it.
\<close>

type_synonym pydict = "(string \<times> pyval) list"

primrec setitem :: "string \<Rightarrow> pyval \<Rightarrow> pydict \<Rightarrow> pydict" where
  "setitem k v [] = [(k, v)]"
| "setitem k v (p # ps) = (if fst p = k then (k, v) # ps else p # setitem k v ps)"

text \<open>\<^verbatim>\<open>d.update(other)\<close>: every item of \<open>other\<close>, in order, is stored in \<open>d\<close>.\<close>

definition update :: "pydict \<Rightarrow> pydict \<Rightarrow> pydict" where
  "update d other = fold (\<lambda>(k, v). setitem k v) other d"

text \<open>\<^verbatim>\<open>dict(pairs)\<close>: the pairs are stored one by one in an empty dictionary.\<close>

definition dict :: "(string \<times> pyval) list \<Rightarrow> pydict" where
  "dict pairs = update [] pairs"

section \<open>The decorator\<close>

text \<open>
  A function handed to the decorator is seen through two things only: the list
  \<^verbatim>\<open>getfullargspec(func).args\<close> of its declared parameter names, and what a call
  \<^verbatim>\<open>func(**kwargs)\<close> with keyword arguments only does.  The driver behind the accessors
  talks to libvirt, so a call takes the state of that world and returns the new one together
  with its outcome, a returned value or a raised exception (Python's own \<^verbatim>\<open>TypeError\<close> for
  a missing or unexpected keyword included).
\<close>

record 's pyfunc =
  getfullargspec_args :: "string list"
  invoke :: "pydict \<Rightarrow> 's \<Rightarrow> pyval outcome \<times> 's"

text \<open>
  Line 78, \<^verbatim>\<open>kwargs.update(dict(zip(arguments, args)))\<close>: the positional arguments are moved
  into the keyword dictionary under the declared names; \<open>zip\<close> stops at the shorter list.
\<close>

definition bind_positional :: "string list \<Rightarrow> pyval list \<Rightarrow> pydict \<Rightarrow> pydict" where
  "bind_positional arguments args kwargs = update kwargs (dict (zip arguments args))"

text \<open>The message of the \<^verbatim>\<open>ValueError\<close>; it ends with a quote character.\<close>

definition identity_required :: string where
  "identity_required =
     ''functions decorated by 'wrapped_identity' must take an argument named 'identity'' @ [CHR 0x27]"

text \<open>
  \<^verbatim>\<open>
  def identity_wrapper(*args, **kwargs):
      arguments = getfullargspec(func).args
      if 'identity' not in arguments:
          raise ValueError("functions decorated by 'wrapped_identity' must take "
                           "an argument named 'identity'")
      kwargs.update(dict(zip(arguments, args)))
      args = ()
      try:
          return func(*args, **kwargs)
      except AliasAccessError as err:
          kwargs['identity'] = str(err)
          return func(*args, **kwargs)
  \<close>
\<close>

definition identity_wrapper ::
  "'s pyfunc \<Rightarrow> pyval list \<Rightarrow> pydict \<Rightarrow> 's \<Rightarrow> pyval outcome \<times> 's" where
  "identity_wrapper func args kwargs s =
     (let arguments = getfullargspec_args func in
      if ''identity'' \<notin> set arguments then
        (Raise (ValueError identity_required), s)
      else
        let kwargs = bind_positional arguments args kwargs in
        case invoke func kwargs s of
          (Return v, s') \<Rightarrow> (Return v, s')
        | (Raise e, s') \<Rightarrow>
            (case e of
               AliasAccessError err \<Rightarrow> invoke func (setitem ''identity'' (PStr err) kwargs) s'
             | _ \<Rightarrow> (Raise e, s')))"

text \<open>
  \<^verbatim>\<open>def wrapped_identity(func): ... return identity_wrapper\<close>.  The body of the decorator
  defines the closure and returns it; it executes no other statement.
\<close>

definition wrapped_identity ::
  "'s pyfunc \<Rightarrow> (pyval list \<Rightarrow> pydict \<Rightarrow> 's \<Rightarrow> pyval outcome \<times> 's) outcome" where
  "wrapped_identity func = Return (identity_wrapper func)"

text \<open>
  An observer for the calls the wrapper makes: \<open>logged func\<close> behaves as \<open>func\<close> and
  appends the keyword dictionary of every invocation to a log kept beside the state.
\<close>

definition logged :: "'s pyfunc \<Rightarrow> ('s \<times> pydict list) pyfunc" where
  "logged func =
     \<lparr>getfullargspec_args = getfullargspec_args func,
      invoke = (\<lambda>kwargs (s, log).
        case invoke func kwargs s of (r, s') \<Rightarrow> (r, (s', log @ [kwargs])))\<rparr>"

definition calls :: "'a \<times> ('s \<times> pydict list) \<Rightarrow> pydict list" where
  "calls r = snd (snd r)"

text \<open>
  Python's own rule for a direct call \<^verbatim>\<open>func(*args, **kwargs)\<close> of a function whose
  signature is a plain parameter list (no \<^verbatim>\<open>*args\<close>, no \<^verbatim>\<open>**kwargs\<close>), as every accessor of
  this module is: a keyword that names a parameter already filled positionally, or more
  positional arguments than parameters, raise \<^verbatim>\<open>TypeError\<close> before the body runs.  It is
  the reference the wrapper's argument handling is compared with.
\<close>

definition direct_call ::
  "'s pyfunc \<Rightarrow> pyval list \<Rightarrow> pydict \<Rightarrow> 's \<Rightarrow> pyval outcome \<times> 's" where
  "direct_call func args kwargs s =
     (let arguments = getfullargspec_args func in
      if \<exists>k \<in> set (take (length args) arguments). k \<in> fst ` set kwargs then
        (Raise (TypeError ''got multiple values for argument''), s)
      else if length arguments < length args then
        (Raise (TypeError ''too many positional arguments''), s)
      else invoke func (bind_positional arguments args kwargs) s)"

section \<open>The systems property\<close>

text \<open>
  \<^verbatim>\<open>
  @property
  def systems(self):
      with libvirt_open(self._uri, readonly=True) as conn:
          return [domain.name() for domain in conn.listAllDomains()]
  \<close>
  The libvirt objects are seen through the calls made on them: \<^verbatim>\<open>domain.name()\<close> and
  \<^verbatim>\<open>conn.listAllDomains()\<close>, each of which returns or raises.
\<close>

record virDomain =
  name :: "string outcome"

record virConnect =
  listAllDomains :: "virDomain list outcome"

record driver_self =
  uri :: string

text \<open>A list comprehension whose element expression may raise: the first failure ends it.\<close>

fun comprehension :: "('a \<Rightarrow> 'b outcome) \<Rightarrow> 'a list \<Rightarrow> 'b list outcome" where
  "comprehension g [] = Return []"
| "comprehension g (x # xs) =
     (case g x of
        Raise e \<Rightarrow> Raise e
      | Return y \<Rightarrow>
          (case comprehension g xs of
             Raise e \<Rightarrow> Raise e
           | Return ys \<Rightarrow> Return (y # ys)))"

text \<open>
  Modelled from the spec: the context manager \<^verbatim>\<open>libvirt_open\<close> is imported from
  \<^verbatim>\<open>libvirtdriver.py\<close>, which is not part of the sources at hand.  It is a parameter here:
  given the URI and the read-only flag, entering it returns the connection or raises.  The
  spec (section 5) describes it as an open-then-close scope around the operation; leaving
  the scope closes the connection and changes no outcome.
\<close>

definition systems ::
  "(string \<Rightarrow> bool \<Rightarrow> virConnect outcome) \<Rightarrow> driver_self \<Rightarrow> string list outcome" where
  "systems libvirt_open self =
     (case libvirt_open (uri self) True of
        Raise e \<Rightarrow> Raise e
      | Return conn \<Rightarrow>
          (case listAllDomains conn of
             Raise e \<Rightarrow> Raise e
           | Return domains \<Rightarrow> comprehension name domains))"

section \<open>Driver stubs of the spec's scenarios\<close>

text \<open>
  The scenario of the spec: one resource with canonical identifier \<open>3b2f-uuid\<close> and
  alias \<open>web-vm\<close>.  The state is the power state of that machine.
\<close>

definition get_power_state_stub :: "string pyfunc" where
  "get_power_state_stub =
     \<lparr>getfullargspec_args = [''self'', ''identity''],
      invoke = (\<lambda>kwargs power.
        if map_of kwargs ''identity'' = Some (PStr ''web-vm'') then
          (Raise (AliasAccessError ''3b2f-uuid''), power)
        else if map_of kwargs ''identity'' = Some (PStr ''3b2f-uuid'') then
          (Return (PStr power), power)
        else (Raise (OtherError ''NotFound'' ''no such domain''), power))\<rparr>"

text \<open>A stub that raises the redirect signal on every invocation and counts them.\<close>

definition redirecting_stub :: "nat pyfunc" where
  "redirecting_stub =
     \<lparr>getfullargspec_args = [''self'', ''identity''],
      invoke = (\<lambda>kwargs n. (Raise (AliasAccessError ''3b2f-uuid''), Suc n))\<rparr>"

text \<open>A function that declares no \<open>identity\<close> parameter, as the \<^verbatim>\<open>driver\<close> property does.\<close>

definition driver_stub :: "nat pyfunc" where
  "driver_stub =
     \<lparr>getfullargspec_args = [''self''],
      invoke = (\<lambda>kwargs n. (Return (PStr ''<libvirtbyname>''), Suc n))\<rparr>"

text \<open>
  A two-hop stub: \<open>web\<close> redirects to \<open>web-vm\<close>, which redirects to the canonical
  \<open>3b2f-uuid\<close>.
\<close>

definition two_hop_stub :: "nat pyfunc" where
  "two_hop_stub =
     \<lparr>getfullargspec_args = [''self'', ''identity''],
      invoke = (\<lambda>kwargs n.
        if map_of kwargs ''identity'' = Some (PStr ''web'') then
          (Raise (AliasAccessError ''web-vm''), n)
        else if map_of kwargs ''identity'' = Some (PStr ''web-vm'') then
          (Raise (AliasAccessError ''3b2f-uuid''), n)
        else (Return (PStr ''On''), n))\<rparr>"

text \<open>
  Connections: one with two domains, one where a domain has vanished between the
  enumeration and the call of \<^verbatim>\<open>name()\<close>, one whose enumeration fails; any other URI
  cannot be opened.
\<close>

definition two_domains :: virConnect where
  "two_domains = \<lparr>listAllDomains = Return [\<lparr>name = Return ''web-vm''\<rparr>, \<lparr>name = Return ''db-vm''\<rparr>]\<rparr>"

definition stale_domains :: virConnect where
  "stale_domains =
     \<lparr>listAllDomains = Return [\<lparr>name = Return ''web-vm''\<rparr>,
        \<lparr>name = Raise (OtherError ''libvirtError'' ''Domain not found'')\<rparr>,
        \<lparr>name = Return ''db-vm''\<rparr>]\<rparr>"

definition open_stub :: "string \<Rightarrow> bool \<Rightarrow> virConnect outcome" where
  "open_stub u readonly =
     (if u = ''qemu:///system'' then Return two_domains
      else if u = ''qemu:///stale'' then Return stale_domains
      else if u = ''qemu:///broken'' then
        Return \<lparr>listAllDomains = Raise (OtherError ''libvirtError'' ''connection reset'')\<rparr>
      else Raise (OtherError ''FishyError'' ''Error when connecting to the libvirt URI''))"

section \<open>Dictionaries and the wrapper, case by case\<close>

lemma map_of_setitem: "map_of (setitem k v d) = (map_of d)(k \<mapsto> v)"
  by (induction d) auto

lemma keys_setitem:
  "map fst (setitem k v d) = (if k \<in> fst ` set d then map fst d else map fst d @ [k])"
  by (induction d) auto

lemma map_of_update: "map_of (update d other) = map_of d ++ map_of (rev other)"
  unfolding update_def
proof (induction other arbitrary: d)
  case Nil
  show ?case by simp
next
  case (Cons p ps)
  obtain k v where p: "p = (k, v)" by (cases p)
  have "map_of (fold (\<lambda>(k, v). setitem k v) ps (setitem k v d))
          = map_of (setitem k v d) ++ map_of (rev ps)"
    by (rule Cons.IH)
  also have "\<dots> = map_of d ++ map_of (rev ps @ [(k, v)])"
    by (simp add: map_of_setitem map_add_def fun_eq_iff split: option.splits)
  finally show ?case by (simp add: p)
qed

lemma map_of_rev_distinct:
  "distinct (map fst ps) \<Longrightarrow> map_of (rev ps) = map_of ps"
  by (metis distinct_rev map_of_inject_set rev_map set_rev)

lemma map_of_dict: "map_of (dict pairs) = map_of (rev pairs)"
  by (simp add: dict_def map_of_update)

lemma distinct_setitem: "distinct (map fst d) \<Longrightarrow> distinct (map fst (setitem k v d))"
  by (induction d) (auto simp: keys_setitem image_iff)

lemma distinct_update: "distinct (map fst d) \<Longrightarrow> distinct (map fst (update d other))"
  unfolding update_def
  by (induction other arbitrary: d) (auto simp: distinct_setitem)

lemma distinct_dict: "distinct (map fst (dict pairs))"
  by (simp add: dict_def distinct_update)

lemma map_of_bind_positional:
  "map_of (bind_positional arguments args kwargs)
     = map_of kwargs ++ map_of (rev (zip arguments args))"
  by (simp add: bind_positional_def map_of_update map_of_rev_distinct distinct_dict map_of_dict)

lemma map_of_bind_positional_distinct:
  assumes "distinct arguments"
  shows "map_of (bind_positional arguments args kwargs)
           = map_of kwargs ++ map_of (zip arguments args)"
proof -
  have "distinct (map fst (zip arguments args))"
    using assms by (simp add: map_fst_zip_take)
  then show ?thesis
    by (simp add: map_of_bind_positional map_of_rev_distinct)
qed

lemma invoke_logged:
  "invoke (logged func) kwargs (s, log) =
     (fst (invoke func kwargs s), (snd (invoke func kwargs s), log @ [kwargs]))"
  by (simp add: logged_def split: prod.splits)

lemma args_logged: "getfullargspec_args (logged func) = getfullargspec_args func"
  by (simp add: logged_def)

lemma wrapper_no_identity:
  "''identity'' \<notin> set (getfullargspec_args func) \<Longrightarrow>
   identity_wrapper func args kwargs s = (Raise (ValueError identity_required), s)"
  by (simp add: identity_wrapper_def)

lemma wrapper_return:
  "''identity'' \<in> set (getfullargspec_args func) \<Longrightarrow>
   invoke func (bind_positional (getfullargspec_args func) args kwargs) s = (Return v, s') \<Longrightarrow>
   identity_wrapper func args kwargs s = (Return v, s')"
  by (simp add: identity_wrapper_def)

lemma wrapper_alias:
  "''identity'' \<in> set (getfullargspec_args func) \<Longrightarrow>
   invoke func (bind_positional (getfullargspec_args func) args kwargs) s
     = (Raise (AliasAccessError c), s') \<Longrightarrow>
   identity_wrapper func args kwargs s =
     invoke func
       (setitem ''identity'' (PStr c) (bind_positional (getfullargspec_args func) args kwargs)) s'"
  by (simp add: identity_wrapper_def)

lemma wrapper_other:
  "''identity'' \<in> set (getfullargspec_args func) \<Longrightarrow>
   invoke func (bind_positional (getfullargspec_args func) args kwargs) s = (Raise e, s') \<Longrightarrow>
   \<not> is_alias (Raise e :: pyval outcome) \<Longrightarrow>
   identity_wrapper func args kwargs s = (Raise e, s')"
  by (cases e) (simp_all add: identity_wrapper_def)


lemma keys_update: "fst ` set (update d other) = fst ` set d \<union> fst ` set other"
  unfolding update_def
proof (induction other arbitrary: d)
  case Nil
  show ?case by simp
next
  case (Cons p ps)
  have "fst ` set (setitem (fst p) (snd p) d) = insert (fst p) (fst ` set d)"
    using keys_setitem [of "fst p" "snd p" d]
    by (metis (no_types, lifting) Un_insert_right append_Nil2 insert_absorb list.set(2)
        list.set_map set_append)
  then show ?case
    using Cons.IH [of "setitem (fst p) (snd p) d"] by (auto simp: case_prod_unfold)
qed

lemma keys_bind_positional:
  "fst ` set (bind_positional arguments args kwargs)
     = fst ` set kwargs \<union> set (take (length args) arguments)"
proof -
  have "fst ` set (dict (zip arguments args)) = fst ` set (zip arguments args)"
    by (simp add: dict_def keys_update)
  also have "\<dots> = set (map fst (zip arguments args))"
    by simp
  also have "\<dots> = set (take (length args) arguments)"
    by (cases "length arguments \<le> length args") (simp_all add: map_fst_zip_take min_def)
  finally show ?thesis
    by (simp add: bind_positional_def keys_update)
qed

lemma bind_positional_surplus:
  "length arguments \<le> length args \<Longrightarrow>
   bind_positional arguments (args @ extra) kwargs = bind_positional arguments args kwargs"
  by (simp add: bind_positional_def zip_append2)

lemma wrapper_logged_return:
  assumes "''identity'' \<in> set (getfullargspec_args func)"
    and "invoke func (bind_positional (getfullargspec_args func) args kwargs) s = (Return v, s')"
  shows "identity_wrapper (logged func) args kwargs (s, log)
           = (Return v, (s', log @ [bind_positional (getfullargspec_args func) args kwargs]))"
  using assms by (intro wrapper_return) (simp_all add: args_logged invoke_logged)

lemma wrapper_logged_other:
  assumes "''identity'' \<in> set (getfullargspec_args func)"
    and "invoke func (bind_positional (getfullargspec_args func) args kwargs) s = (Raise e, s')"
    and "\<not> is_alias (Raise e :: pyval outcome)"
  shows "identity_wrapper (logged func) args kwargs (s, log)
           = (Raise e, (s', log @ [bind_positional (getfullargspec_args func) args kwargs]))"
  using assms by (intro wrapper_other) (simp_all add: args_logged invoke_logged)

lemma wrapper_logged_alias:
  assumes "''identity'' \<in> set (getfullargspec_args func)"
    and "kw1 = bind_positional (getfullargspec_args func) args kwargs"
    and "invoke func kw1 s = (Raise (AliasAccessError c), s')"
    and "invoke func (setitem ''identity'' (PStr c) kw1) s' = (r, s'')"
  shows "identity_wrapper (logged func) args kwargs (s, log)
           = (r, (s'', log @ [kw1, setitem ''identity'' (PStr c) kw1]))"
proof -
  have "identity_wrapper (logged func) args kwargs (s, log)
          = invoke (logged func) (setitem ''identity'' (PStr c) kw1) (s', log @ [kw1])"
    unfolding assms(2)
  proof (rule wrapper_alias [where func = "logged func", unfolded args_logged])
    show "''identity'' \<in> set (getfullargspec_args func)"
      by (rule assms(1))
    show "invoke (logged func) (bind_positional (getfullargspec_args func) args kwargs) (s, log) =
            (Raise (AliasAccessError c),
             (s', log @ [bind_positional (getfullargspec_args func) args kwargs]))"
      using assms(3) by (simp add: invoke_logged assms(2))
  qed
  then show ?thesis
    using assms(4) by (simp add: invoke_logged)
qed

lemma calls_le_two:
  "length (calls (identity_wrapper (logged func) args kwargs (s, log))) \<le> length log + 2"
proof (cases "''identity'' \<in> set (getfullargspec_args func)")
  case False
  then show ?thesis
    by (simp add: wrapper_no_identity args_logged calls_def)
next
  case True
  define kw1 where "kw1 = bind_positional (getfullargspec_args func) args kwargs"
  obtain r s' where first: "invoke func kw1 s = (r, s')"
    by (cases "invoke func kw1 s")
  show ?thesis
  proof (cases r)
    case (Return v)
    with True first show ?thesis
      by (simp add: wrapper_logged_return kw1_def calls_def)
  next
    case (Raise e)
    show ?thesis
    proof (cases "is_alias (Raise e :: pyval outcome)")
      case False
      with True first Raise show ?thesis
        by (simp add: wrapper_logged_other kw1_def calls_def)
    next
      case True
      then obtain c where e: "e = AliasAccessError c"
        by (cases e) simp_all
      obtain r2 s2 where second: "invoke func (setitem ''identity'' (PStr c) kw1) s' = (r2, s2)"
        by (cases "invoke func (setitem ''identity'' (PStr c) kw1) s'")
      have "identity_wrapper (logged func) args kwargs (s, log)
              = (r2, (s2, log @ [kw1, setitem ''identity'' (PStr c) kw1]))"
        using \<open>''identity'' \<in> set (getfullargspec_args func)\<close> kw1_def first second
        unfolding Raise e by (rule wrapper_logged_alias)
      then show ?thesis
        by (simp add: calls_def)
    qed
  qed
qed

lemma bind_self_identity:
  "bind_positional [''self'', ''identity''] [a, b] [] = [(''self'', a), (''identity'', b)]"
  by (simp add: bind_positional_def dict_def update_def)

lemma calls_first:
  assumes "''identity'' \<in> set (getfullargspec_args func)"
  shows "\<exists>rest. calls (identity_wrapper (logged func) args kwargs (s, log))
           = log @ bind_positional (getfullargspec_args func) args kwargs # rest"
proof -
  define kw1 where "kw1 = bind_positional (getfullargspec_args func) args kwargs"
  obtain r s' where first: "invoke func kw1 s = (r, s')"
    by (cases "invoke func kw1 s")
  show ?thesis
  proof (cases r)
    case (Return v)
    with assms first show ?thesis
      by (simp add: wrapper_logged_return kw1_def calls_def)
  next
    case (Raise e)
    show ?thesis
    proof (cases "is_alias (Raise e :: pyval outcome)")
      case False
      with assms first Raise show ?thesis
        by (simp add: wrapper_logged_other kw1_def calls_def)
    next
      case True
      then obtain c where e: "e = AliasAccessError c"
        by (cases e) simp_all
      obtain r2 s2 where second: "invoke func (setitem ''identity'' (PStr c) kw1) s' = (r2, s2)"
        by (cases "invoke func (setitem ''identity'' (PStr c) kw1) s'")
      have "identity_wrapper (logged func) args kwargs (s, log)
              = (r2, (s2, log @ [kw1, setitem ''identity'' (PStr c) kw1]))"
        using assms kw1_def first second unfolding Raise e by (rule wrapper_logged_alias)
      then show ?thesis
        by (simp add: calls_def kw1_def)
    qed
  qed
qed

lemma map_of_zip_at:
  "distinct xs \<Longrightarrow> i < length xs \<Longrightarrow> i < length ys \<Longrightarrow>
   map_of (zip xs ys) (xs ! i) = Some (ys ! i)"
proof (induction xs arbitrary: ys i)
  case Nil
  then show ?case by simp
next
  case (Cons x xs)
  from Cons.prems(3) obtain y ys' where ys: "ys = y # ys'"
    by (cases ys) auto
  show ?case
  proof (cases i)
    case 0
    then show ?thesis by (simp add: ys)
  next
    case (Suc j)
    with Cons.prems have j: "distinct xs" "j < length xs" "j < length ys'" "xs ! j \<noteq> x"
      by (auto simp: ys)
    then show ?thesis
      using Cons.IH [of j ys'] by (simp add: Suc ys)
  qed
qed

lemma map_of_zip_outside:
  "k \<notin> set (take (length ys) xs) \<Longrightarrow> map_of (zip xs ys) k = None"
proof -
  assume "k \<notin> set (take (length ys) xs)"
  moreover have "fst ` set (zip xs ys) = set (take (length ys) xs)"
    by (cases "length xs \<le> length ys")
      (simp_all add: map_fst_zip_take min_def flip: set_map)
  ultimately show ?thesis
    by (simp add: map_of_eq_None_iff)
qed

lemma setitem_idem: "setitem k v (setitem k v0 d) = setitem k v d"
  by (induction d) auto

lemma setitem_commute:
  "k \<noteq> k' \<Longrightarrow> k \<in> fst ` set d \<Longrightarrow>
   setitem k' v' (setitem k v d) = setitem k v (setitem k' v' d)"
  by (induction d) auto

lemma fold_setitem_present:
  "k \<notin> fst ` set ps \<Longrightarrow> k \<in> fst ` set d \<Longrightarrow>
   fold (\<lambda>(k, v). setitem k v) ps (setitem k v d) = setitem k v (fold (\<lambda>(k, v). setitem k v) ps d)"
proof (induction ps arbitrary: d)
  case Nil
  show ?case by simp
next
  case (Cons p ps)
  obtain k' v' where p: "p = (k', v')" by (cases p)
  from Cons.prems have neq: "k \<noteq> k'" and rest: "k \<notin> fst ` set ps"
    by (auto simp: p)
  have present: "k \<in> fst ` set (setitem k' v' d)"
    using Cons.prems(2) keys_setitem [of k' v' d]
    by (metis (no_types, lifting) Un_iff list.set_map set_append)
  have "fold (\<lambda>(k, v). setitem k v) (p # ps) (setitem k v d)
          = fold (\<lambda>(k, v). setitem k v) ps (setitem k v (setitem k' v' d))"
    using neq Cons.prems(2) by (simp add: p setitem_commute)
  also have "\<dots> = setitem k v (fold (\<lambda>(k, v). setitem k v) ps (setitem k' v' d))"
    using rest present by (rule Cons.IH)
  finally show ?case
    by (simp add: p)
qed

lemma fold_setitem_list_update:
  "distinct (map fst ps) \<Longrightarrow> i < length ps \<Longrightarrow> fst (ps ! i) = k \<Longrightarrow>
   fold (\<lambda>(k, v). setitem k v) (ps[i := (k, v)]) d
     = setitem k v (fold (\<lambda>(k, v). setitem k v) ps d)"
proof (induction ps arbitrary: i d)
  case Nil
  then show ?case by simp
next
  case (Cons p ps)
  show ?case
  proof (cases i)
    case 0
    with Cons.prems obtain v0 where p: "p = (k, v0)"
      by (cases p) auto
    from Cons.prems(1) have absent: "k \<notin> fst ` set ps"
      by (simp add: p)
    have present: "k \<in> fst ` set (setitem k v0 d)"
      using keys_setitem [of k v0 d]
      by (metis (no_types, lifting) Un_iff list.set_intros(1) list.set_map set_append)
    have "fold (\<lambda>(k, v). setitem k v) ps (setitem k v (setitem k v0 d))
            = setitem k v (fold (\<lambda>(k, v). setitem k v) ps (setitem k v0 d))"
      using absent present by (rule fold_setitem_present)
    then show ?thesis
      by (simp add: 0 p setitem_idem)
  next
    case (Suc j)
    with Cons.prems have "distinct (map fst ps)" "j < length ps" "fst (ps ! j) = k"
      by simp_all
    then show ?thesis
      by (simp add: Suc Cons.IH)
  qed
qed

lemma setitem_as_list_update:
  "k \<in> fst ` set d \<Longrightarrow> \<exists>j < length d. fst (d ! j) = k \<and> setitem k v d = d[j := (k, v)]"
proof (induction d)
  case Nil
  then show ?case by simp
next
  case (Cons p d)
  show ?case
  proof (cases "fst p = k")
    case True
    then have "0 < length (p # d) \<and> fst ((p # d) ! 0) = k \<and> setitem k v (p # d) = (p # d)[0 := (k, v)]"
      by simp
    then show ?thesis by blast
  next
    case False
    with Cons.prems have "k \<in> fst ` set d" by auto
    then obtain j where "j < length d" "fst (d ! j) = k" "setitem k v d = d[j := (k, v)]"
      using Cons.IH by blast
    with False have "Suc j < length (p # d) \<and> fst ((p # d) ! Suc j) = k \<and>
        setitem k v (p # d) = (p # d)[Suc j := (k, v)]"
      by simp
    then show ?thesis by blast
  qed
qed

lemma update_setitem_present:
  assumes "distinct (map fst other)" and "k \<in> fst ` set other"
  shows "update d (setitem k v other) = setitem k v (update d other)"
proof -
  obtain j where j: "j < length other" "fst (other ! j) = k" "setitem k v other = other[j := (k, v)]"
    using setitem_as_list_update [OF assms(2)] by blast
  show ?thesis
    unfolding update_def j(3) using assms(1) j(1,2) by (rule fold_setitem_list_update)
qed

lemma keys_dict_zip:
  "fst ` set (dict (zip arguments args)) = set (take (length args) arguments)"
proof -
  have "fst ` set (dict (zip arguments args)) = set (map fst (zip arguments args))"
    by (simp add: dict_def keys_update)
  also have "\<dots> = set (take (length args) arguments)"
    by (cases "length arguments \<le> length args") (simp_all add: map_fst_zip_take min_def)
  finally show ?thesis .
qed

lemma bind_positional_replace_positional:
  assumes "distinct arguments" and "i < length args" and "i < length arguments"
    and "arguments ! i = k"
  shows "bind_positional arguments (args[i := v]) kwargs
           = setitem k v (bind_positional arguments args kwargs)"
proof -
  let ?ps = "zip arguments args"
  have d: "distinct (map fst ?ps)"
    using assms(1) by (simp add: map_fst_zip_take)
  have i: "i < length ?ps" "fst (?ps ! i) = k"
    using assms by simp_all
  have "arguments[i := k] = arguments"
    using assms(4) by (metis list_update_id)
  then have "zip arguments (args[i := v]) = ?ps[i := (k, v)]"
    by (metis zip_update)
  then have "dict (zip arguments (args[i := v])) = setitem k v (dict ?ps)"
    unfolding dict_def update_def using fold_setitem_list_update [OF d i] by simp
  moreover have "k \<in> fst ` set (dict ?ps)"
    using i(1) i(2) by (metis dict_def keys_update Un_iff image_eqI nth_mem)
  ultimately show ?thesis
    by (simp add: bind_positional_def update_setitem_present distinct_dict)
qed

lemma bind_positional_replace_keyword:
  assumes "k \<in> fst ` set kwargs" and "k \<notin> set (take (length args) arguments)"
  shows "bind_positional arguments args (setitem k v kwargs)
           = setitem k v (bind_positional arguments args kwargs)"
proof -
  have "fst ` set (dict (zip arguments args)) = set (take (length args) arguments)"
    by (rule keys_dict_zip)
  with assms(2) have "k \<notin> fst ` set (dict (zip arguments args))"
    by simp
  then show ?thesis
    unfolding bind_positional_def update_def using assms(1) by (rule fold_setitem_present)
qed

lemma comprehension_all_return:
  "map g xs = map Return ys \<Longrightarrow> comprehension g xs = Return ys"
  by (induction xs arbitrary: ys) auto

lemma comprehension_first_failure:
  "map g xs = map Return ys \<Longrightarrow> g x = Raise e \<Longrightarrow> comprehension g (xs @ x # zs) = Raise e"
  by (induction xs arbitrary: ys) auto

section \<open>The claims\<close>

text \<open>
  In the statements below \<open>kw1\<close> is the keyword dictionary of the first invocation, the
  caller's arguments after line 78, and \<open>log\<close> is the record of earlier invocations that
  the observer \<open>logged\<close> extends.
\<close>

text \<open>
  Claim C1.  Let the function raise the redirect signal with payload \<open>C\<close> when called with
  the caller's identity \<open>A\<close>, and let \<open>C\<close> be canonical: called with \<open>C\<close>, the function
  does not redirect.  Then the wrapped call with \<open>A\<close> has the outcome and final state of
  the wrapped call with \<open>C\<close> in place of \<open>A\<close> (positionally, \<open>args[i := C]\<close>, or by
  keyword) and the same other arguments.  The second call starts in the state \<open>s'\<close> the
  signal left; a driver that redirects before it touches anything has \<open>s' = s\<close>.
\<close>

theorem alias_call_equals_canonical_call:
  assumes "''identity'' \<in> set (getfullargspec_args func)"
    and "kw1 = bind_positional (getfullargspec_args func) args kwargs"
    and "(\<exists>i. i < length args \<and> i < length (getfullargspec_args func) \<and>
              getfullargspec_args func ! i = ''identity'' \<and> distinct (getfullargspec_args func) \<and>
              args' = args[i := PStr C] \<and> kwargs' = kwargs) \<or>
         (''identity'' \<in> fst ` set kwargs \<and>
          ''identity'' \<notin> set (take (length args) (getfullargspec_args func)) \<and>
          args' = args \<and> kwargs' = setitem ''identity'' (PStr C) kwargs)"
    and "invoke func kw1 s = (Raise (AliasAccessError C), s')"
    and "\<not> is_alias (fst (invoke func (setitem ''identity'' (PStr C) kw1) s'))"
  shows "identity_wrapper func args kwargs s = identity_wrapper func args' kwargs' s'"
proof -
  let ?kwC = "setitem ''identity'' (PStr C) kw1"
  have bound: "bind_positional (getfullargspec_args func) args' kwargs' = ?kwC"
    using assms(3)
  proof (elim disjE exE conjE)
    fix i
    assume "i < length args" "i < length (getfullargspec_args func)"
      "getfullargspec_args func ! i = ''identity''" "distinct (getfullargspec_args func)"
      "args' = args[i := PStr C]" "kwargs' = kwargs"
    then show ?thesis
      by (simp add: assms(2) bind_positional_replace_positional)
  next
    assume "''identity'' \<in> fst ` set kwargs"
      "''identity'' \<notin> set (take (length args) (getfullargspec_args func))"
      "args' = args" "kwargs' = setitem ''identity'' (PStr C) kwargs"
    then show ?thesis
      by (simp add: assms(2) bind_positional_replace_keyword)
  qed
  have redirected: "identity_wrapper func args kwargs s = invoke func ?kwC s'"
    using assms(1,2,4) by (simp add: wrapper_alias)
  obtain r t where direct: "invoke func ?kwC s' = (r, t)"
    by (cases "invoke func ?kwC s'")
  with assms(5) have not_alias: "\<not> is_alias r"
    by simp
  have "identity_wrapper func args' kwargs' s' = (r, t)"
  proof (cases r)
    case (Return v)
    with assms(1) bound direct show ?thesis
      by (simp add: wrapper_return)
  next
    case (Raise e)
    with not_alias have "\<not> is_alias (Raise e :: pyval outcome)"
      by simp
    with assms(1) bound direct Raise show ?thesis
      by (simp add: wrapper_other)
  qed
  with redirected direct show ?thesis
    by simp
qed

theorem alias_call_equals_canonical_call_witness:
  "invoke get_power_state_stub [(''self'', PObj 0), (''identity'', PStr ''web-vm'')] ''On''
     = (Raise (AliasAccessError ''3b2f-uuid''), ''On'') \<and>
   \<not> is_alias (fst (invoke get_power_state_stub
                      [(''self'', PObj 0), (''identity'', PStr ''3b2f-uuid'')] ''On'')) \<and>
   identity_wrapper get_power_state_stub [PObj 0, PStr ''web-vm''] [] ''On''
     = identity_wrapper get_power_state_stub [PObj 0, PStr ''3b2f-uuid''] [] ''On'' \<and>
   identity_wrapper get_power_state_stub [PObj 0, PStr ''3b2f-uuid''] [] ''On''
     = (Return (PStr ''On''), ''On'')"
proof -
  have params: "''identity'' \<in> set (getfullargspec_args get_power_state_stub)"
    by (simp add: get_power_state_stub_def)
  have bound: "[(''self'', PObj 0), (''identity'', PStr ''web-vm'')]
      = bind_positional (getfullargspec_args get_power_state_stub) [PObj 0, PStr ''web-vm''] []"
    by (simp add: get_power_state_stub_def bind_self_identity)
  have same: "(\<exists>i. i < length [PObj 0, PStr ''web-vm''] \<and>
              i < length (getfullargspec_args get_power_state_stub) \<and>
              getfullargspec_args get_power_state_stub ! i = ''identity'' \<and>
              distinct (getfullargspec_args get_power_state_stub) \<and>
              [PObj 0, PStr ''3b2f-uuid''] = [PObj 0, PStr ''web-vm''][i := PStr ''3b2f-uuid''] \<and>
              ([] :: pydict) = []) \<or>
         (''identity'' \<in> fst ` set ([] :: pydict) \<and>
          ''identity'' \<notin> set (take (length [PObj 0, PStr ''web-vm''])
                                 (getfullargspec_args get_power_state_stub)) \<and>
          [PObj 0, PStr ''3b2f-uuid''] = [PObj 0, PStr ''web-vm''] \<and>
          ([] :: pydict) = setitem ''identity'' (PStr ''3b2f-uuid'') [])"
    by (intro disjI1 exI [of _ 1]) (simp add: get_power_state_stub_def)
  have first: "invoke get_power_state_stub [(''self'', PObj 0), (''identity'', PStr ''web-vm'')] ''On''
     = (Raise (AliasAccessError ''3b2f-uuid''), ''On'')"
    by (simp add: get_power_state_stub_def)
  have canonical: "\<not> is_alias (fst (invoke get_power_state_stub
      (setitem ''identity'' (PStr ''3b2f-uuid'')
         [(''self'', PObj 0), (''identity'', PStr ''web-vm'')]) ''On''))"
    by (simp add: get_power_state_stub_def)
  have "identity_wrapper get_power_state_stub [PObj 0, PStr ''web-vm''] [] ''On''
     = identity_wrapper get_power_state_stub [PObj 0, PStr ''3b2f-uuid''] [] ''On''"
    using alias_call_equals_canonical_call [OF params bound same first canonical] .
  moreover have "identity_wrapper get_power_state_stub [PObj 0, PStr ''3b2f-uuid''] [] ''On''
     = (Return (PStr ''On''), ''On'')"
    by (simp add: identity_wrapper_def get_power_state_stub_def bind_positional_def dict_def
        update_def)
  ultimately show ?thesis
    using first canonical by simp
qed

text \<open>
  That \<open>C\<close> is canonical is needed: the wrapper follows one redirect only, so an alias of an
  alias ends in the second signal, while its target alone resolves.
\<close>

lemma second_hop_not_followed:
  "identity_wrapper two_hop_stub [PObj 0, PStr ''web''] [] 0
     = (Raise (AliasAccessError ''3b2f-uuid''), 0) \<and>
   identity_wrapper two_hop_stub [PObj 0, PStr ''web-vm''] [] 0 = (Return (PStr ''On''), 0)"
  by (simp add: identity_wrapper_def two_hop_stub_def bind_self_identity)

text \<open>
  Claim C2.  The wrapper invokes the underlying function at most twice in every call.
  Against a function that raises the redirect signal on every invocation it makes exactly
  two invocations, the second with the payload of the first signal as identity, and the
  outcome of the second invocation, its signal, is the outcome of the wrapped call.
\<close>

theorem at_most_two_invocations:
  "length (calls (identity_wrapper (logged func) args kwargs (s, log))) \<le> length log + 2 \<and>
   (''identity'' \<in> set (getfullargspec_args func) \<and>
    kw1 = bind_positional (getfullargspec_args func) args kwargs \<and>
    (\<forall>kw t. is_alias (fst (invoke func kw t))) \<longrightarrow>
      (\<exists>c d s1 s2.
         invoke func kw1 s = (Raise (AliasAccessError c), s1) \<and>
         invoke func (setitem ''identity'' (PStr c) kw1) s1 = (Raise (AliasAccessError d), s2) \<and>
         identity_wrapper func args kwargs s = (Raise (AliasAccessError d), s2) \<and>
         identity_wrapper (logged func) args kwargs (s, log)
           = (Raise (AliasAccessError d), (s2, log @ [kw1, setitem ''identity'' (PStr c) kw1]))))"
proof (intro conjI impI)
  show "length (calls (identity_wrapper (logged func) args kwargs (s, log))) \<le> length log + 2"
    by (rule calls_le_two)
next
  assume a: "''identity'' \<in> set (getfullargspec_args func) \<and>
    kw1 = bind_positional (getfullargspec_args func) args kwargs \<and>
    (\<forall>kw t. is_alias (fst (invoke func kw t)))"
  then have always: "\<And>kw t. is_alias (fst (invoke func kw t))"
    by blast
  have sig: "\<exists>c t'. invoke func kw t = (Raise (AliasAccessError c), t')" for kw t
    using always [of kw t] by (cases "invoke func kw t" rule: prod.exhaust)
      (auto elim: is_alias.elims)
  obtain c s1 where first: "invoke func kw1 s = (Raise (AliasAccessError c), s1)"
    using sig by blast
  obtain d s2 where
    second: "invoke func (setitem ''identity'' (PStr c) kw1) s1 = (Raise (AliasAccessError d), s2)"
    using sig by blast
  have plain: "identity_wrapper func args kwargs s = (Raise (AliasAccessError d), s2)"
    using a first second by (simp add: wrapper_alias)
  have "identity_wrapper (logged func) args kwargs (s, log)
          = (Raise (AliasAccessError d), (s2, log @ [kw1, setitem ''identity'' (PStr c) kw1]))"
    using a first second by (intro wrapper_logged_alias) simp_all
  with first second plain show "\<exists>c d s1 s2.
         invoke func kw1 s = (Raise (AliasAccessError c), s1) \<and>
         invoke func (setitem ''identity'' (PStr c) kw1) s1 = (Raise (AliasAccessError d), s2) \<and>
         identity_wrapper func args kwargs s = (Raise (AliasAccessError d), s2) \<and>
         identity_wrapper (logged func) args kwargs (s, log)
           = (Raise (AliasAccessError d), (s2, log @ [kw1, setitem ''identity'' (PStr c) kw1]))"
    by blast
qed

theorem at_most_two_invocations_witness:
  "(\<forall>kw t. is_alias (fst (invoke redirecting_stub kw t))) \<and>
   identity_wrapper (logged redirecting_stub) [PObj 0, PStr ''web-vm''] [] (0, [])
     = (Raise (AliasAccessError ''3b2f-uuid''),
        (2, [[(''self'', PObj 0), (''identity'', PStr ''web-vm'')],
             [(''self'', PObj 0), (''identity'', PStr ''3b2f-uuid'')]]))"
proof -
  have always: "\<forall>kw t. is_alias (fst (invoke redirecting_stub kw t))"
    by (simp add: redirecting_stub_def)
  have params: "''identity'' \<in> set (getfullargspec_args redirecting_stub)"
    by (simp add: redirecting_stub_def)
  have bound: "[(''self'', PObj 0), (''identity'', PStr ''web-vm'')]
                 = bind_positional (getfullargspec_args redirecting_stub) [PObj 0, PStr ''web-vm''] []"
    by (simp add: redirecting_stub_def bind_self_identity)
  from at_most_two_invocations [of redirecting_stub "[PObj 0, PStr ''web-vm'']" "[]" 0 "[]"
      "[(''self'', PObj 0), (''identity'', PStr ''web-vm'')]"] params bound always
  have "\<exists>c d s1 s2.
         invoke redirecting_stub [(''self'', PObj 0), (''identity'', PStr ''web-vm'')] 0
           = (Raise (AliasAccessError c), s1) \<and>
         invoke redirecting_stub
           (setitem ''identity'' (PStr c) [(''self'', PObj 0), (''identity'', PStr ''web-vm'')]) s1
           = (Raise (AliasAccessError d), s2) \<and>
         identity_wrapper redirecting_stub [PObj 0, PStr ''web-vm''] [] 0
           = (Raise (AliasAccessError d), s2) \<and>
         identity_wrapper (logged redirecting_stub) [PObj 0, PStr ''web-vm''] [] (0, [])
           = (Raise (AliasAccessError d),
              (s2, [] @ [[(''self'', PObj 0), (''identity'', PStr ''web-vm'')],
                   setitem ''identity'' (PStr c)
                     [(''self'', PObj 0), (''identity'', PStr ''web-vm'')]]))"
    by blast
  then have "identity_wrapper (logged redirecting_stub) [PObj 0, PStr ''web-vm''] [] (0, [])
     = (Raise (AliasAccessError ''3b2f-uuid''),
        (2, [[(''self'', PObj 0), (''identity'', PStr ''web-vm'')],
             [(''self'', PObj 0), (''identity'', PStr ''3b2f-uuid'')]]))"
    by (auto simp: redirecting_stub_def)
  with always show ?thesis
    by blast
qed

text \<open>
  Claim C3, as amended.  The decorator itself never fails: it returns the closure whatever
  the function declares.  When \<open>identity\<close> is not among the declared parameters, every
  call of the wrapped operation raises the \<^verbatim>\<open>ValueError\<close> before the function is invoked
  and leaves the state untouched.
\<close>

theorem missing_identity_fails_at_call_time:
  "wrapped_identity func = Return (identity_wrapper func) \<and>
   (''identity'' \<notin> set (getfullargspec_args func) \<longrightarrow>
      identity_wrapper func args kwargs s = (Raise (ValueError identity_required), s) \<and>
      identity_wrapper (logged func) args kwargs (s, log)
        = (Raise (ValueError identity_required), (s, log)))"
proof (intro conjI impI)
  show "wrapped_identity func = Return (identity_wrapper func)"
    by (simp add: wrapped_identity_def)
next
  assume absent: "''identity'' \<notin> set (getfullargspec_args func)"
  then show "identity_wrapper func args kwargs s = (Raise (ValueError identity_required), s)"
    by (rule wrapper_no_identity)
  from absent have "''identity'' \<notin> set (getfullargspec_args (logged func))"
    by (simp add: args_logged)
  then show "identity_wrapper (logged func) args kwargs (s, log)
      = (Raise (ValueError identity_required), (s, log))"
    by (rule wrapper_no_identity)
qed

theorem missing_identity_fails_at_call_time_witness:
  "''identity'' \<notin> set (getfullargspec_args driver_stub) \<and>
   identity_wrapper driver_stub [PObj 0] [] 0 = (Raise (ValueError identity_required), 0) \<and>
   identity_wrapper (logged driver_stub) [PObj 0] [] (0, [])
     = (Raise (ValueError identity_required), (0, []))"
proof -
  have absent: "''identity'' \<notin> set (getfullargspec_args driver_stub)"
    by (simp add: driver_stub_def)
  with missing_identity_fails_at_call_time [of driver_stub "[PObj 0]" "[]" 0 "[]"]
  show ?thesis
    by blast
qed

text \<open>
  The claim as stated fails: wrapping a function without an \<open>identity\<close> parameter raises
  nothing; the error appears when the wrapped operation is called.
\<close>

theorem wrap_time_counterexample:
  "''identity'' \<notin> set (getfullargspec_args driver_stub) \<and>
   \<not> raises (wrapped_identity driver_stub) \<and>
   fst (identity_wrapper driver_stub [PObj 0] [] 0) = Raise (ValueError identity_required)"
  by (simp add: wrapped_identity_def identity_wrapper_def driver_stub_def)

text \<open>
  Claim C4, as amended.  The redirect signal of the first invocation never is the outcome of
  the wrapped call.  A redirect signal reaches the caller only as the outcome of the second
  invocation, the retry, which the wrapper passes on as it is.
\<close>

theorem signal_only_from_retry:
  assumes "is_alias (fst (identity_wrapper func args kwargs s))"
    and "kw1 = bind_positional (getfullargspec_args func) args kwargs"
  shows "\<exists>c s1. invoke func kw1 s = (Raise (AliasAccessError c), s1) \<and>
           is_alias (fst (invoke func (setitem ''identity'' (PStr c) kw1) s1)) \<and>
           identity_wrapper func args kwargs s
             = invoke func (setitem ''identity'' (PStr c) kw1) s1"
proof -
  have params: "''identity'' \<in> set (getfullargspec_args func)"
  proof (rule ccontr)
    assume "''identity'' \<notin> set (getfullargspec_args func)"
    then have "identity_wrapper func args kwargs s = (Raise (ValueError identity_required), s)"
      by (rule wrapper_no_identity)
    with assms(1) show False
      by simp
  qed
  obtain r s1 where first: "invoke func kw1 s = (r, s1)"
    by (cases "invoke func kw1 s")
  show ?thesis
  proof (cases r)
    case (Return v)
    with params first assms show ?thesis
      by (simp add: wrapper_return)
  next
    case (Raise e)
    show ?thesis
    proof (cases "is_alias (Raise e :: pyval outcome)")
      case False
      with params first Raise assms show ?thesis
        by (simp add: wrapper_other)
    next
      case True
      then obtain c where e: "e = AliasAccessError c"
        by (cases e) simp_all
      have "identity_wrapper func args kwargs s
              = invoke func (setitem ''identity'' (PStr c) kw1) s1"
        using params first assms(2) unfolding Raise e by (simp add: wrapper_alias)
      with first assms(1) show ?thesis
        unfolding Raise e by simp
    qed
  qed
qed

theorem signal_only_from_retry_witness:
  "is_alias (fst (identity_wrapper redirecting_stub [PObj 0, PStr ''3b2f-uuid''] [] 5)) \<and>
   identity_wrapper redirecting_stub [PObj 0, PStr ''3b2f-uuid''] [] 5
     = (Raise (AliasAccessError ''3b2f-uuid''), 7)"
proof -
  have escapes: "is_alias (fst (identity_wrapper redirecting_stub [PObj 0, PStr ''3b2f-uuid''] [] 5))"
    by (simp add: identity_wrapper_def redirecting_stub_def)
  have "\<exists>c s1. invoke redirecting_stub
            (bind_positional (getfullargspec_args redirecting_stub) [PObj 0, PStr ''3b2f-uuid''] []) 5
              = (Raise (AliasAccessError c), s1) \<and>
           is_alias (fst (invoke redirecting_stub (setitem ''identity'' (PStr c)
             (bind_positional (getfullargspec_args redirecting_stub) [PObj 0, PStr ''3b2f-uuid''] [])) s1)) \<and>
           identity_wrapper redirecting_stub [PObj 0, PStr ''3b2f-uuid''] [] 5
             = invoke redirecting_stub (setitem ''identity'' (PStr c)
             (bind_positional (getfullargspec_args redirecting_stub) [PObj 0, PStr ''3b2f-uuid''] [])) s1"
    using signal_only_from_retry [OF escapes refl] .
  then have "identity_wrapper redirecting_stub [PObj 0, PStr ''3b2f-uuid''] [] 5
     = (Raise (AliasAccessError ''3b2f-uuid''), 7)"
    by (auto simp: redirecting_stub_def)
  with escapes show ?thesis
    by blast
qed

text \<open>
  The claim as stated fails: with a function that always redirects, the caller of the
  wrapped operation receives the redirect signal.
\<close>

theorem signal_escapes_counterexample:
  "is_alias (fst (identity_wrapper redirecting_stub [PObj 0, PStr ''web-vm''] [] 0))"
  by (simp add: identity_wrapper_def redirecting_stub_def)

text \<open>
  Claim C5.  When the first invocation raises anything but the redirect signal, the wrapped
  call raises that exception, leaves the state as the invocation left it, and has invoked
  the function once.
\<close>

theorem other_failure_not_retried:
  assumes "''identity'' \<in> set (getfullargspec_args func)"
    and "kw1 = bind_positional (getfullargspec_args func) args kwargs"
    and "invoke func kw1 s = (Raise e, s')"
    and "\<forall>c. e \<noteq> AliasAccessError c"
  shows "identity_wrapper func args kwargs s = (Raise e, s') \<and>
         identity_wrapper (logged func) args kwargs (s, log) = (Raise e, (s', log @ [kw1]))"
proof -
  have "\<not> is_alias (Raise e :: pyval outcome)"
    using assms(4) by (cases e) simp_all
  with assms(1-3) show ?thesis
    by (simp add: wrapper_other wrapper_logged_other)
qed

theorem other_failure_not_retried_witness:
  "invoke get_power_state_stub [(''self'', PObj 0), (''identity'', PStr ''ghost-vm'')] ''On''
     = (Raise (OtherError ''NotFound'' ''no such domain''), ''On'') \<and>
   identity_wrapper get_power_state_stub [PObj 0, PStr ''ghost-vm''] [] ''On''
     = (Raise (OtherError ''NotFound'' ''no such domain''), ''On'') \<and>
   identity_wrapper (logged get_power_state_stub) [PObj 0, PStr ''ghost-vm''] [] (''On'', [])
     = (Raise (OtherError ''NotFound'' ''no such domain''),
        (''On'', [[(''self'', PObj 0), (''identity'', PStr ''ghost-vm'')]]))"
proof -
  have params: "''identity'' \<in> set (getfullargspec_args get_power_state_stub)"
    by (simp add: get_power_state_stub_def)
  have bound: "[(''self'', PObj 0), (''identity'', PStr ''ghost-vm'')]
      = bind_positional (getfullargspec_args get_power_state_stub) [PObj 0, PStr ''ghost-vm''] []"
    by (simp add: get_power_state_stub_def bind_self_identity)
  have first: "invoke get_power_state_stub
        [(''self'', PObj 0), (''identity'', PStr ''ghost-vm'')] ''On''
      = (Raise (OtherError ''NotFound'' ''no such domain''), ''On'')"
    by (simp add: get_power_state_stub_def)
  have other: "\<forall>c. OtherError ''NotFound'' ''no such domain'' \<noteq> AliasAccessError c"
    by simp
  show ?thesis
    using other_failure_not_retried [OF params bound first other, of "[]"] first by simp
qed

text \<open>
  Claim C6.  When the first invocation raises the redirect signal with payload \<open>c\<close>, there
  is a second invocation; its keyword dictionary holds \<open>c\<close> under \<open>identity\<close> and, under
  every other key, what the first invocation received.  When the caller supplied the
  identity, by keyword or positionally, the keys and their order are those of the first
  invocation.
\<close>

theorem retry_replaces_identity_only:
  assumes "''identity'' \<in> set (getfullargspec_args func)"
    and "kw1 = bind_positional (getfullargspec_args func) args kwargs"
    and "invoke func kw1 s = (Raise (AliasAccessError c), s')"
  shows "\<exists>kw2. calls (identity_wrapper (logged func) args kwargs (s, log)) = log @ [kw1, kw2] \<and>
           map_of kw2 ''identity'' = Some (PStr c) \<and>
           (\<forall>k. k \<noteq> ''identity'' \<longrightarrow> map_of kw2 k = map_of kw1 k) \<and>
           (''identity'' \<in> fst ` set kwargs \<or>
            ''identity'' \<in> set (take (length args) (getfullargspec_args func))
              \<longrightarrow> map fst kw2 = map fst kw1)"
proof -
  let ?kw2 = "setitem ''identity'' (PStr c) kw1"
  obtain r s'' where second: "invoke func ?kw2 s' = (r, s'')"
    by (cases "invoke func ?kw2 s'")
  have "identity_wrapper (logged func) args kwargs (s, log) = (r, (s'', log @ [kw1, ?kw2]))"
    using assms second by (rule wrapper_logged_alias)
  then have "calls (identity_wrapper (logged func) args kwargs (s, log)) = log @ [kw1, ?kw2]"
    by (simp add: calls_def)
  moreover have "map_of ?kw2 ''identity'' = Some (PStr c)"
    by (simp add: map_of_setitem)
  moreover have "\<forall>k. k \<noteq> ''identity'' \<longrightarrow> map_of ?kw2 k = map_of kw1 k"
    by (simp add: map_of_setitem)
  moreover have "''identity'' \<in> fst ` set kwargs \<or>
            ''identity'' \<in> set (take (length args) (getfullargspec_args func))
              \<longrightarrow> map fst ?kw2 = map fst kw1"
    using keys_bind_positional [of "getfullargspec_args func" args kwargs]
    by (auto simp: keys_setitem assms(2))
  ultimately show ?thesis
    by blast
qed

theorem retry_replaces_identity_only_witness:
  "invoke get_power_state_stub [(''identity'', PStr ''web-vm''), (''self'', PObj 0)] ''Off''
      = (Raise (AliasAccessError ''3b2f-uuid''), ''Off'') \<and>
   (\<exists>kw2. calls (identity_wrapper (logged get_power_state_stub) [PObj 0]
                  [(''identity'', PStr ''web-vm'')] (''Off'', []))
             = [[(''identity'', PStr ''web-vm''), (''self'', PObj 0)], kw2] \<and>
          map_of kw2 ''identity'' = Some (PStr ''3b2f-uuid'') \<and>
          map_of kw2 ''self'' = Some (PObj 0) \<and>
          map fst kw2 = [''identity'', ''self''])"
proof -
  have params: "''identity'' \<in> set (getfullargspec_args get_power_state_stub)"
    by (simp add: get_power_state_stub_def)
  have bound: "[(''identity'', PStr ''web-vm''), (''self'', PObj 0)]
      = bind_positional (getfullargspec_args get_power_state_stub) [PObj 0]
          [(''identity'', PStr ''web-vm'')]"
    by (simp add: get_power_state_stub_def bind_positional_def dict_def update_def)
  have first: "invoke get_power_state_stub [(''identity'', PStr ''web-vm''), (''self'', PObj 0)] ''Off''
      = (Raise (AliasAccessError ''3b2f-uuid''), ''Off'')"
    by (simp add: get_power_state_stub_def)
  obtain kw2 where
    log: "calls (identity_wrapper (logged get_power_state_stub) [PObj 0]
            [(''identity'', PStr ''web-vm'')] (''Off'', []))
          = [] @ [[(''identity'', PStr ''web-vm''), (''self'', PObj 0)], kw2]"
    and payload: "map_of kw2 ''identity'' = Some (PStr ''3b2f-uuid'')"
    and others: "\<forall>k. k \<noteq> ''identity'' \<longrightarrow>
          map_of kw2 k = map_of [(''identity'', PStr ''web-vm''), (''self'', PObj 0)] k"
    and keys: "''identity'' \<in> fst ` set [(''identity'', PStr ''web-vm'')] \<or>
          ''identity'' \<in> set (take (length [PObj 0]) (getfullargspec_args get_power_state_stub))
          \<longrightarrow> map fst kw2 = map fst [(''identity'', PStr ''web-vm''), (''self'', PObj 0)]"
    using retry_replaces_identity_only [OF params bound first, of "[]"] by blast
  have "map_of kw2 ''self'' = Some (PObj 0)"
    using others [rule_format, of "''self''"] by simp
  moreover have "map fst kw2 = [''identity'', ''self'']"
    using keys by simp
  ultimately show ?thesis
    using first log payload by simp
qed

text \<open>
  Claim C7.  When the first invocation returns, the wrapped call returns the same value,
  leaves the state as the invocation left it, and has invoked the function once.
\<close>

theorem first_call_result_returned:
  assumes "''identity'' \<in> set (getfullargspec_args func)"
    and "kw1 = bind_positional (getfullargspec_args func) args kwargs"
    and "invoke func kw1 s = (Return v, s')"
  shows "identity_wrapper func args kwargs s = (Return v, s') \<and>
         identity_wrapper (logged func) args kwargs (s, log) = (Return v, (s', log @ [kw1]))"
  using assms by (simp add: wrapper_return wrapper_logged_return)

theorem first_call_result_returned_witness:
  "invoke get_power_state_stub [(''self'', PObj 0), (''identity'', PStr ''3b2f-uuid'')] ''On''
     = (Return (PStr ''On''), ''On'') \<and>
   identity_wrapper get_power_state_stub [PObj 0, PStr ''3b2f-uuid''] [] ''On''
     = (Return (PStr ''On''), ''On'') \<and>
   identity_wrapper (logged get_power_state_stub) [PObj 0, PStr ''3b2f-uuid''] [] (''On'', [])
     = (Return (PStr ''On''),
        (''On'', [[(''self'', PObj 0), (''identity'', PStr ''3b2f-uuid'')]]))"
proof -
  have params: "''identity'' \<in> set (getfullargspec_args get_power_state_stub)"
    by (simp add: get_power_state_stub_def)
  have bound: "[(''self'', PObj 0), (''identity'', PStr ''3b2f-uuid'')]
      = bind_positional (getfullargspec_args get_power_state_stub) [PObj 0, PStr ''3b2f-uuid''] []"
    by (simp add: get_power_state_stub_def bind_self_identity)
  have first: "invoke get_power_state_stub
        [(''self'', PObj 0), (''identity'', PStr ''3b2f-uuid'')] ''On''
      = (Return (PStr ''On''), ''On'')"
    by (simp add: get_power_state_stub_def)
  show ?thesis
    using first_call_result_returned [OF params bound first, of "[]"] first by simp
qed

text \<open>
  Claim C8.  When the connection opens, the enumeration returns the domains and every
  \<^verbatim>\<open>name()\<close> returns, \<open>systems\<close> returns those names, one per domain and in the order of
  the enumeration.  A failure to open, a failure of the enumeration and the first failure
  of a \<^verbatim>\<open>name()\<close> call each are the outcome of \<open>systems\<close>, unchanged.
\<close>

theorem systems_lists_names_in_order:
  "(libvirt_open (uri self) True = Return conn \<and> listAllDomains conn = Return domains \<and>
    map name domains = map Return names \<longrightarrow>
      systems libvirt_open self = Return names \<and> length names = length domains \<and>
      (\<forall>i < length domains. name (domains ! i) = Return (names ! i))) \<and>
   (libvirt_open (uri self) True = Raise e \<longrightarrow> systems libvirt_open self = Raise e) \<and>
   (libvirt_open (uri self) True = Return conn \<and> listAllDomains conn = Raise e \<longrightarrow>
      systems libvirt_open self = Raise e) \<and>
   (libvirt_open (uri self) True = Return conn \<and>
    listAllDomains conn = Return (domains @ d # rest) \<and>
    map name domains = map Return names \<and> name d = Raise e \<longrightarrow>
      systems libvirt_open self = Raise e)"
proof (intro conjI impI)
  assume a: "libvirt_open (uri self) True = Return conn \<and> listAllDomains conn = Return domains \<and>
    map name domains = map Return names"
  then show "systems libvirt_open self = Return names"
    by (simp add: systems_def comprehension_all_return)
  from a have len: "length (map name domains) = length (map Return names :: string outcome list)"
    by simp
  then show "length names = length domains"
    by simp
  show "\<forall>i < length domains. name (domains ! i) = Return (names ! i)"
  proof (intro allI impI)
    fix i assume i: "i < length domains"
    from a have "map name domains ! i = map Return names ! i"
      by simp
    with i len show "name (domains ! i) = Return (names ! i)"
      by simp
  qed
next
  assume "libvirt_open (uri self) True = Raise e"
  then show "systems libvirt_open self = Raise e"
    by (simp add: systems_def)
next
  assume "libvirt_open (uri self) True = Return conn \<and> listAllDomains conn = Raise e"
  then show "systems libvirt_open self = Raise e"
    by (simp add: systems_def)
next
  assume "libvirt_open (uri self) True = Return conn \<and>
    listAllDomains conn = Return (domains @ d # rest) \<and>
    map name domains = map Return names \<and> name d = Raise e"
  then show "systems libvirt_open self = Raise e"
    by (simp add: systems_def comprehension_first_failure)
qed

theorem systems_lists_names_in_order_witness:
  "systems open_stub \<lparr>uri = ''qemu:///system''\<rparr> = Return [''web-vm'', ''db-vm''] \<and>
   systems open_stub \<lparr>uri = ''qemu:///session''\<rparr>
     = Raise (OtherError ''FishyError'' ''Error when connecting to the libvirt URI'') \<and>
   systems open_stub \<lparr>uri = ''qemu:///broken''\<rparr>
     = Raise (OtherError ''libvirtError'' ''connection reset'') \<and>
   systems open_stub \<lparr>uri = ''qemu:///stale''\<rparr>
     = Raise (OtherError ''libvirtError'' ''Domain not found'')"
proof -
  have opened: "open_stub (uri \<lparr>uri = ''qemu:///system''\<rparr>) True = Return two_domains"
    by (simp add: open_stub_def)
  have listed: "listAllDomains two_domains
      = Return [\<lparr>name = Return ''web-vm''\<rparr>, \<lparr>name = Return ''db-vm''\<rparr>]"
    by (simp add: two_domains_def)
  have named: "map name [\<lparr>name = Return ''web-vm''\<rparr>, \<lparr>name = Return ''db-vm''\<rparr>]
      = map Return [''web-vm'', ''db-vm'']"
    by simp
  have one: "systems open_stub \<lparr>uri = ''qemu:///system''\<rparr> = Return [''web-vm'', ''db-vm'']"
    using systems_lists_names_in_order [of open_stub "\<lparr>uri = ''qemu:///system''\<rparr>" two_domains
        "[\<lparr>name = Return ''web-vm''\<rparr>, \<lparr>name = Return ''db-vm''\<rparr>]" "[''web-vm'', ''db-vm'']"]
      opened listed named by blast
  have refused: "open_stub (uri \<lparr>uri = ''qemu:///session''\<rparr>) True
      = Raise (OtherError ''FishyError'' ''Error when connecting to the libvirt URI'')"
    by (simp add: open_stub_def)
  have two: "systems open_stub \<lparr>uri = ''qemu:///session''\<rparr>
      = Raise (OtherError ''FishyError'' ''Error when connecting to the libvirt URI'')"
    using systems_lists_names_in_order [of open_stub "\<lparr>uri = ''qemu:///session''\<rparr>" _ _ _
        "OtherError ''FishyError'' ''Error when connecting to the libvirt URI''"]
      refused by blast
  have broken: "open_stub (uri \<lparr>uri = ''qemu:///broken''\<rparr>) True
      = Return \<lparr>listAllDomains = Raise (OtherError ''libvirtError'' ''connection reset'')\<rparr>"
    by (simp add: open_stub_def)
  have three: "systems open_stub \<lparr>uri = ''qemu:///broken''\<rparr>
      = Raise (OtherError ''libvirtError'' ''connection reset'')"
    using systems_lists_names_in_order [of open_stub "\<lparr>uri = ''qemu:///broken''\<rparr>"
        "\<lparr>listAllDomains = Raise (OtherError ''libvirtError'' ''connection reset'')\<rparr>" _ _
        "OtherError ''libvirtError'' ''connection reset''"]
      broken by simp
  have stale: "open_stub (uri \<lparr>uri = ''qemu:///stale''\<rparr>) True = Return stale_domains"
    by (simp add: open_stub_def)
  have stale_list: "listAllDomains stale_domains
      = Return ([\<lparr>name = Return ''web-vm''\<rparr>]
          @ \<lparr>name = Raise (OtherError ''libvirtError'' ''Domain not found'')\<rparr>
          # [\<lparr>name = Return ''db-vm''\<rparr>])"
    by (simp add: stale_domains_def)
  have four: "systems open_stub \<lparr>uri = ''qemu:///stale''\<rparr>
      = Raise (OtherError ''libvirtError'' ''Domain not found'')"
    using systems_lists_names_in_order [of open_stub "\<lparr>uri = ''qemu:///stale''\<rparr>" stale_domains
        "[\<lparr>name = Return ''web-vm''\<rparr>]" "[''web-vm'']"
        "OtherError ''libvirtError'' ''Domain not found''"
        "\<lparr>name = Raise (OtherError ''libvirtError'' ''Domain not found'')\<rparr>"
        "[\<lparr>name = Return ''db-vm''\<rparr>]"]
      stale stale_list by simp
  from one two three four show ?thesis
    by blast
qed

text \<open>
  Claim C9.  When a declared parameter is supplied positionally and by keyword, the first
  invocation receives the positional value under that name; the keys that are not filled
  positionally keep the caller's keyword values.  The wrapped call raises nothing of its
  own, where the direct call raises \<^verbatim>\<open>TypeError\<close> without running the function.
\<close>

theorem positional_value_overrides_keyword:
  assumes "''identity'' \<in> set (getfullargspec_args func)"
    and "distinct (getfullargspec_args func)"
    and "i < length args" and "i < length (getfullargspec_args func)"
    and "getfullargspec_args func ! i \<in> fst ` set kwargs"
    and "kw1 = bind_positional (getfullargspec_args func) args kwargs"
  shows "(\<exists>rest. calls (identity_wrapper (logged func) args kwargs (s, log)) = log @ kw1 # rest) \<and>
         map_of kw1 (getfullargspec_args func ! i) = Some (args ! i) \<and>
         (\<forall>k. k \<notin> set (take (length args) (getfullargspec_args func)) \<longrightarrow>
              map_of kw1 k = map_of kwargs k) \<and>
         direct_call func args kwargs s
           = (Raise (TypeError ''got multiple values for argument''), s)"
proof (intro conjI)
  show "\<exists>rest. calls (identity_wrapper (logged func) args kwargs (s, log)) = log @ kw1 # rest"
    unfolding assms(6) using assms(1) by (rule calls_first)
  have shape: "map_of kw1 = map_of kwargs ++ map_of (zip (getfullargspec_args func) args)"
    unfolding assms(6) using assms(2) by (rule map_of_bind_positional_distinct)
  show "map_of kw1 (getfullargspec_args func ! i) = Some (args ! i)"
    using assms(2,3,4) by (simp add: shape map_of_zip_at)
  show "\<forall>k. k \<notin> set (take (length args) (getfullargspec_args func)) \<longrightarrow>
          map_of kw1 k = map_of kwargs k"
    by (simp add: shape map_add_def map_of_zip_outside)
  have "getfullargspec_args func ! i \<in> set (take (length args) (getfullargspec_args func))"
    using assms(3,4) by (metis in_set_conv_nth length_take min_less_iff_conj nth_take)
  with assms(5) have "\<exists>k \<in> set (take (length args) (getfullargspec_args func)).
      k \<in> fst ` set kwargs"
    by blast
  then show "direct_call func args kwargs s
      = (Raise (TypeError ''got multiple values for argument''), s)"
    by (simp add: direct_call_def Let_def)
qed

theorem positional_value_overrides_keyword_witness:
  "''identity'' \<in> fst ` set [(''identity'', PStr ''ghost-vm'')] \<and>
   (\<exists>rest. calls (identity_wrapper (logged get_power_state_stub) [PObj 0, PStr ''3b2f-uuid'']
                   [(''identity'', PStr ''ghost-vm'')] (''On'', []))
            = [(''identity'', PStr ''3b2f-uuid''), (''self'', PObj 0)] # rest) \<and>
   direct_call get_power_state_stub [PObj 0, PStr ''3b2f-uuid'']
       [(''identity'', PStr ''ghost-vm'')] ''On''
     = (Raise (TypeError ''got multiple values for argument''), ''On'')"
proof -
  have params: "''identity'' \<in> set (getfullargspec_args get_power_state_stub)"
    and dist: "distinct (getfullargspec_args get_power_state_stub)"
    and pos: "1 < length [PObj 0, PStr ''3b2f-uuid'']"
    and decl: "1 < length (getfullargspec_args get_power_state_stub)"
    and both: "getfullargspec_args get_power_state_stub ! 1
                 \<in> fst ` set [(''identity'', PStr ''ghost-vm'')]"
    by (simp_all add: get_power_state_stub_def)
  have bound: "[(''identity'', PStr ''3b2f-uuid''), (''self'', PObj 0)]
      = bind_positional (getfullargspec_args get_power_state_stub) [PObj 0, PStr ''3b2f-uuid'']
          [(''identity'', PStr ''ghost-vm'')]"
    by (simp add: get_power_state_stub_def bind_positional_def dict_def update_def)
  show ?thesis
    using positional_value_overrides_keyword [OF params dist pos decl both bound, of "''On''" "[]"]
    by simp
qed

text \<open>
  Claim C10.  Positional arguments beyond the declared parameters have no effect: the
  wrapped call is the wrapped call on the first \<open>length arguments\<close> positional arguments,
  invocation by invocation, and the first invocation's keys are the caller's keywords and
  the declared names.  The direct call raises \<^verbatim>\<open>TypeError\<close> without running the function.
\<close>

theorem surplus_positional_discarded:
  assumes "length (getfullargspec_args func) < length args"
  shows "identity_wrapper func args kwargs s
           = identity_wrapper func (take (length (getfullargspec_args func)) args) kwargs s \<and>
         identity_wrapper (logged func) args kwargs (s, log)
           = identity_wrapper (logged func) (take (length (getfullargspec_args func)) args)
               kwargs (s, log) \<and>
         fst ` set (bind_positional (getfullargspec_args func) args kwargs)
           = fst ` set kwargs \<union> set (getfullargspec_args func) \<and>
         (\<exists>msg. direct_call func args kwargs s = (Raise (TypeError msg), s))"
proof -
  let ?n = "length (getfullargspec_args func)"
  have "args = take ?n args @ drop ?n args"
    by simp
  moreover have "?n \<le> length (take ?n args)"
    using assms by simp
  ultimately have same: "bind_positional (getfullargspec_args func) args kwargs
      = bind_positional (getfullargspec_args func) (take ?n args) kwargs"
    by (metis bind_positional_surplus)
  have plain: "identity_wrapper func args kwargs s = identity_wrapper func (take ?n args) kwargs s"
    by (simp add: identity_wrapper_def Let_def same)
  have observed: "identity_wrapper (logged func) args kwargs (s, log)
      = identity_wrapper (logged func) (take ?n args) kwargs (s, log)"
    by (simp add: identity_wrapper_def Let_def args_logged same)
  have keys: "fst ` set (bind_positional (getfullargspec_args func) args kwargs)
      = fst ` set kwargs \<union> set (getfullargspec_args func)"
    using assms by (simp add: keys_bind_positional)
  have "\<exists>msg. direct_call func args kwargs s = (Raise (TypeError msg), s)"
    using assms by (simp add: direct_call_def Let_def)
  with plain observed keys show ?thesis
    by blast
qed

theorem surplus_positional_discarded_witness:
  "length (getfullargspec_args get_power_state_stub) < length [PObj 0, PStr ''3b2f-uuid'', PInt 7] \<and>
   identity_wrapper (logged get_power_state_stub) [PObj 0, PStr ''3b2f-uuid'', PInt 7] [] (''On'', [])
     = (Return (PStr ''On''), (''On'', [[(''self'', PObj 0), (''identity'', PStr ''3b2f-uuid'')]])) \<and>
   (\<exists>msg. direct_call get_power_state_stub [PObj 0, PStr ''3b2f-uuid'', PInt 7] [] ''On''
            = (Raise (TypeError msg), ''On''))"
proof -
  have surplus: "length (getfullargspec_args get_power_state_stub)
      < length [PObj 0, PStr ''3b2f-uuid'', PInt 7]"
    by (simp add: get_power_state_stub_def)
  have declared: "take (length (getfullargspec_args get_power_state_stub))
      [PObj 0, PStr ''3b2f-uuid'', PInt 7] = [PObj 0, PStr ''3b2f-uuid'']"
    by (simp add: get_power_state_stub_def)
  have two: "identity_wrapper (logged get_power_state_stub) [PObj 0, PStr ''3b2f-uuid''] [] (''On'', [])
     = (Return (PStr ''On''), (''On'', [[(''self'', PObj 0), (''identity'', PStr ''3b2f-uuid'')]]))"
    by (simp add: identity_wrapper_def logged_def get_power_state_stub_def bind_positional_def
        dict_def update_def)
  show ?thesis
    using surplus_positional_discarded [OF surplus, of "[]" "''On''" "[]"] surplus
    by (simp add: declared two)
qed

end
